theory Spec2Isabelle
  imports Main
begin

section \<open>The memoised Fibonacci function of \<open>fib_module.py\<close>\<close>

text \<open>
  The module defines one function, \<open>fib(n, memo=None)\<close>. Its index and its values are
  Python integers (unbounded), modelled as \<open>int\<close>. The dictionary \<open>memo\<close> is a map from
  index to value. The function mutates the dictionary it is given; the model returns
  the dictionary as it is when the call returns, next to the returned value. All
  recursive calls of one top-level call work on the same dictionary object, so passing
  the updated map from one call to the next is exactly the source's sharing.

  Python's limit on the depth of the call stack is a property of the interpreter, not
  of the function, and is not modelled: the integers and the recursion are unbounded.
\<close>

type_synonym memo = "int \<rightharpoonup> int"

text \<open>
  The only operation of the function that can raise is the subscript \<open>memo[n]\<close>, with
  \<open>KeyError\<close> for an absent key.
\<close>

datatype error = KeyError int

text \<open>The three dictionary operations the function uses: \<open>n in memo\<close>, \<open>memo[n]\<close> and
  \<open>memo[n] = v\<close>.\<close>

definition dict_contains :: "memo \<Rightarrow> int \<Rightarrow> bool" where
  "dict_contains memo n = (memo n \<noteq> None)"

definition dict_getitem :: "memo \<Rightarrow> int \<Rightarrow> error + int" where
  "dict_getitem memo n = (case memo n of None \<Rightarrow> Inl (KeyError n) | Some v \<Rightarrow> Inr v)"

definition dict_setitem :: "memo \<Rightarrow> int \<Rightarrow> int \<Rightarrow> memo" where
  "dict_setitem memo n v = memo(n \<mapsto> v)"

text \<open>
  \<open>fib\<close>, statement by statement. The argument \<open>memo_arg\<close> is \<open>None\<close> when the caller
  omits the dictionary. In \<open>memo[n] = fib(n - 1, memo) + fib(n - 2, memo)\<close> Python
  evaluates the right-hand side first, left operand before right operand, and then
  stores; \<open>return memo[n]\<close> reads the entry back.
\<close>

function fib :: "int \<Rightarrow> memo option \<Rightarrow> error + (int \<times> memo)" where
  "fib n memo_arg =
     (let memo = (case memo_arg of None \<Rightarrow> Map.empty | Some d \<Rightarrow> d) in
      if n \<le> 1 then Inr (n, memo)
      else if dict_contains memo n then
        (case dict_getitem memo n of
           Inl e \<Rightarrow> Inl e
         | Inr v \<Rightarrow> Inr (v, memo))
      else
        (case fib (n - 1) (Some memo) of
           Inl e \<Rightarrow> Inl e
         | Inr (a, memo1) \<Rightarrow>
             (case fib (n - 2) (Some memo1) of
                Inl e \<Rightarrow> Inl e
              | Inr (b, memo2) \<Rightarrow>
                  (let memo3 = dict_setitem memo2 n (a + b) in
                   case dict_getitem memo3 n of
                     Inl e \<Rightarrow> Inl e
                   | Inr v \<Rightarrow> Inr (v, memo3)))))"
  by pat_completeness auto
termination
  by (relation "measure (\<lambda>(n, memo_arg). nat n)") auto

declare fib.simps [simp del]

subsection \<open>The same function with its dictionary accesses and calls recorded\<close>

text \<open>
  Some properties of \<open>fib\<close> are about what happens during a call: which dictionary
  operations run, in which order, and how many recursive calls are made. \<open>fib_traced\<close>
  is \<open>fib\<close> with one more result, the list of these events in the order of execution:
  \<^item> \<open>Call m k\<close>: the invocation with argument \<open>m\<close> calls \<open>fib(k, memo)\<close>;
  \<^item> \<open>Contains k b\<close>: the test \<open>k in memo\<close> gives \<open>b\<close>;
  \<^item> \<open>Getitem k v\<close>: the read \<open>memo[k]\<close> gives \<open>v\<close>;
  \<^item> \<open>Setitem k v\<close>: the store \<open>memo[k] = v\<close>.
  The function has no other access to the dictionary (no deletion, no \<open>update\<close>, no
  \<open>clear\<close>), so the datatype has no other constructor. The top-level invocation itself is
  not an event: \<open>Call\<close> counts the recursive calls only.
\<close>

datatype event = Call int int | Contains int bool | Getitem int int | Setitem int int

function fib_traced :: "int \<Rightarrow> memo option \<Rightarrow> error + (int \<times> memo \<times> event list)" where
  "fib_traced n memo_arg =
     (let memo = (case memo_arg of None \<Rightarrow> Map.empty | Some d \<Rightarrow> d) in
      if n \<le> 1 then Inr (n, memo, [])
      else if dict_contains memo n then
        (case dict_getitem memo n of
           Inl e \<Rightarrow> Inl e
         | Inr v \<Rightarrow> Inr (v, memo, [Contains n True, Getitem n v]))
      else
        (case fib_traced (n - 1) (Some memo) of
           Inl e \<Rightarrow> Inl e
         | Inr (a, memo1, t1) \<Rightarrow>
             (case fib_traced (n - 2) (Some memo1) of
                Inl e \<Rightarrow> Inl e
              | Inr (b, memo2, t2) \<Rightarrow>
                  (let memo3 = dict_setitem memo2 n (a + b) in
                   case dict_getitem memo3 n of
                     Inl e \<Rightarrow> Inl e
                   | Inr v \<Rightarrow>
                       Inr (v, memo3,
                            [Contains n False, Call n (n - 1)] @ t1 @ [Call n (n - 2)] @ t2 @
                            [Setitem n (a + b), Getitem n v])))))"
  by pat_completeness auto
termination
  by (relation "measure (\<lambda>(n, memo_arg). nat n)") auto

declare fib_traced.simps [simp del]

subsection \<open>The same function on a heap of dictionary objects\<close>

text \<open>
  Whether two calls share a dictionary is a question about objects, not values. Here the
  dictionaries live in a heap, a list of dictionary objects addressed by position; the
  argument \<open>memo_arg\<close> is \<open>None\<close> or a reference into the heap. \<open>memo = {}\<close> allocates a
  new object at the end of the heap, and \<open>memo[n] = v\<close> updates the object the reference
  points to, in place. A Python reference always points to a live object, so the
  properties below are stated for references inside the heap.
\<close>

type_synonym heap = "memo list"

function fib_heap :: "int \<Rightarrow> nat option \<Rightarrow> heap \<Rightarrow> error + (int \<times> heap)" where
  "fib_heap n memo_arg h =
     (let (memo, h0) = (case memo_arg of
                          None \<Rightarrow> (length h, h @ [Map.empty])
                        | Some r \<Rightarrow> (r, h)) in
      if n \<le> 1 then Inr (n, h0)
      else if dict_contains (h0 ! memo) n then
        (case dict_getitem (h0 ! memo) n of
           Inl e \<Rightarrow> Inl e
         | Inr v \<Rightarrow> Inr (v, h0))
      else
        (case fib_heap (n - 1) (Some memo) h0 of
           Inl e \<Rightarrow> Inl e
         | Inr (a, h1) \<Rightarrow>
             (case fib_heap (n - 2) (Some memo) h1 of
                Inl e \<Rightarrow> Inl e
              | Inr (b, h2) \<Rightarrow>
                  (let h3 = h2[memo := dict_setitem (h2 ! memo) n (a + b)] in
                   case dict_getitem (h3 ! memo) n of
                     Inl e \<Rightarrow> Inl e
                   | Inr v \<Rightarrow> Inr (v, h3)))))"
  by pat_completeness auto
termination
  by (relation "measure (\<lambda>(n, memo_arg, h). nat n)") auto

declare fib_heap.simps [simp del]

section \<open>The entry point of \<open>main.py\<close>\<close>

text \<open>
  \<open>main()\<close> sets \<open>n = 16\<close>, calls \<open>fib(n)\<close> with the dictionary omitted and prints one
  formatted line. Standard output is the string of characters written to it; \<open>print\<close>
  writes its argument and a newline. The f-string formats both integers as \<open>str\<close> does:
  decimal digits, with a minus sign for a negative number.
\<close>

definition digit_char :: "nat \<Rightarrow> char" where
  "digit_char d = char_of (of_char CHR ''0'' + d)"

function str_nat :: "nat \<Rightarrow> string" where
  "str_nat k = (if k < 10 then [digit_char k] else str_nat (k div 10) @ [digit_char (k mod 10)])"
  by pat_completeness auto
termination
  by (relation "measure (\<lambda>k. k)") auto

declare str_nat.simps [simp del]

definition str :: "int \<Rightarrow> string" where
  "str i = (if i < 0 then CHR ''-'' # str_nat (nat (- i)) else str_nat (nat i))"

definition print :: "string \<Rightarrow> string" where
  "print s = s @ ''\<newline>''"

definition main :: "error + string" where
  "main =
     (let n = 16 in
      case fib n None of
        Inl e \<Rightarrow> Inl e
      | Inr (result, memo) \<Rightarrow>
          Inr (print (''The '' @ str n @ ''th Fibonacci number is: '' @ str result)))"

text \<open>
  The script calls \<open>main()\<close> and ends. The interpreter exits with status 0 when the
  script ends normally and with status 1 when an exception reaches the top level.
\<close>

definition exit_status :: "error + string \<Rightarrow> nat" where
  "exit_status r = (case r of Inl e \<Rightarrow> 1 | Inr out \<Rightarrow> 0)"

section \<open>What the specification talks about\<close>

text \<open>
  The Fibonacci sequence as the specification defines it: \<open>F(0) = 0\<close>, \<open>F(1) = 1\<close>,
  \<open>F(n) = F(n-1) + F(n-2)\<close>. It is defined from the specification's words, not from the
  code, and is what the results of \<open>fib\<close> are compared with.
\<close>

fun fibonacci :: "nat \<Rightarrow> int" where
  "fibonacci 0 = 0"
| "fibonacci (Suc 0) = 1"
| "fibonacci (Suc (Suc k)) = fibonacci (Suc k) + fibonacci k"

text \<open>The dictionary that holds \<open>F(k)\<close> under every key \<open>k\<close> from 2 to \<open>n\<close>, and nothing else.\<close>

definition fib_table :: "int \<Rightarrow> memo" where
  "fib_table n = (\<lambda>k. if 2 \<le> k \<and> k \<le> n then Some (fibonacci (nat k)) else None)"

text \<open>
  Every entry of the dictionary is a Fibonacci value stored under an index from 0 up to,
  not including, \<open>n\<close>.
\<close>

definition correct_below :: "int \<Rightarrow> memo \<Rightarrow> bool" where
  "correct_below n memo = (\<forall>k x. memo k = Some x \<longrightarrow> 0 \<le> k \<and> k < n \<and> x = fibonacci (nat k))"

text \<open>
  The invariant of memoisation: the entries a call with argument \<open>n\<close> can read, those
  under the keys from 2 to \<open>n\<close>, are Fibonacci values. A call started with such a
  dictionary returns \<open>F(n)\<close> and leaves such a dictionary.
\<close>

definition entries_correct :: "int \<Rightarrow> memo \<Rightarrow> bool" where
  "entries_correct n memo =
     (\<forall>k x. 2 \<le> k \<and> k \<le> n \<and> memo k = Some x \<longrightarrow> x = fibonacci (nat k))"

text \<open>
  What a call leaves behind, read off its result: the value returned to the caller, the
  entry of the dictionary under a key after the call, and the number of recursive calls
  it made. An exception shows as \<open>Inl\<close> in each.
\<close>

definition returned :: "error + (int \<times> memo) \<Rightarrow> error + int" where
  "returned r = (case r of Inl e \<Rightarrow> Inl e | Inr (v, memo') \<Rightarrow> Inr v)"

definition entry_after :: "error + (int \<times> memo) \<Rightarrow> int \<Rightarrow> error + int option" where
  "entry_after r k = (case r of Inl e \<Rightarrow> Inl e | Inr (v, memo') \<Rightarrow> Inr (memo' k))"

fun recursive_calls :: "event list \<Rightarrow> nat" where
  "recursive_calls [] = 0"
| "recursive_calls (Call m k # es) = Suc (recursive_calls es)"
| "recursive_calls (e # es) = recursive_calls es"

definition calls_made :: "error + (int \<times> memo \<times> event list) \<Rightarrow> error + nat" where
  "calls_made r = (case r of Inl e \<Rightarrow> Inl e | Inr (v, memo', t) \<Rightarrow> Inr (recursive_calls t))"

text \<open>The keys stored during a call, in the order of the stores.\<close>

fun stored_keys :: "event list \<Rightarrow> int list" where
  "stored_keys [] = []"
| "stored_keys (Setitem k v # es) = k # stored_keys es"
| "stored_keys (e # es) = stored_keys es"

text \<open>
  \<open>replay\<close> runs a list of events against a dictionary that can only grow. It fails
  (\<open>None\<close>) when a store hits a key that is present, when a read gives a value other than
  the entry the dictionary holds, or when a membership test gives the wrong answer;
  otherwise it gives the dictionary after the last event. A trace that \<open>replay\<close> accepts
  is therefore one in which no entry is overwritten and every read is served from the
  entry as first stored.
\<close>

fun replay :: "memo \<Rightarrow> event list \<Rightarrow> memo option" where
  "replay memo [] = Some memo"
| "replay memo (Call m k # es) = replay memo es"
| "replay memo (Contains k b # es) =
     (if b = dict_contains memo k then replay memo es else None)"
| "replay memo (Getitem k v # es) =
     (if dict_getitem memo k = Inr v then replay memo es else None)"
| "replay memo (Setitem k v # es) =
     (if dict_contains memo k then None else replay (dict_setitem memo k v) es)"

section \<open>Unfolding the three functions\<close>

lemma fib_None: "fib n None = fib n (Some Map.empty)"
  by (simp add: fib.simps [of n None] fib.simps [of n "Some Map.empty"])

lemma fib_base: "n \<le> 1 \<Longrightarrow> fib n (Some memo) = Inr (n, memo)"
  by (simp add: fib.simps [of n])

lemma fib_hit: "1 < n \<Longrightarrow> memo n = Some v \<Longrightarrow> fib n (Some memo) = Inr (v, memo)"
  by (simp add: fib.simps [of n] dict_contains_def dict_getitem_def)

lemma fib_miss:
  "1 < n \<Longrightarrow> memo n = None \<Longrightarrow> fib (n - 1) (Some memo) = Inr (a, memo1) \<Longrightarrow>
   fib (n - 2) (Some memo1) = Inr (b, memo2) \<Longrightarrow>
   fib n (Some memo) = Inr (a + b, memo2(n \<mapsto> a + b))"
  by (simp add: fib.simps [of n] dict_contains_def dict_getitem_def dict_setitem_def)

lemma fib_traced_None: "fib_traced n None = fib_traced n (Some Map.empty)"
  by (simp add: fib_traced.simps [of n None] fib_traced.simps [of n "Some Map.empty"])

lemma fib_traced_base: "n \<le> 1 \<Longrightarrow> fib_traced n (Some memo) = Inr (n, memo, [])"
  by (simp add: fib_traced.simps [of n])

lemma fib_traced_hit:
  "1 < n \<Longrightarrow> memo n = Some v \<Longrightarrow>
   fib_traced n (Some memo) = Inr (v, memo, [Contains n True, Getitem n v])"
  by (simp add: fib_traced.simps [of n] dict_contains_def dict_getitem_def)

lemma fib_traced_miss:
  "1 < n \<Longrightarrow> memo n = None \<Longrightarrow>
   fib_traced (n - 1) (Some memo) = Inr (a, memo1, t1) \<Longrightarrow>
   fib_traced (n - 2) (Some memo1) = Inr (b, memo2, t2) \<Longrightarrow>
   fib_traced n (Some memo) =
     Inr (a + b, memo2(n \<mapsto> a + b),
          [Contains n False, Call n (n - 1)] @ t1 @ [Call n (n - 2)] @ t2 @
          [Setitem n (a + b), Getitem n (a + b)])"
  by (simp add: fib_traced.simps [of n] dict_contains_def dict_getitem_def dict_setitem_def)

lemma fib_heap_None: "fib_heap n None h = fib_heap n (Some (length h)) (h @ [Map.empty])"
  by (simp add: fib_heap.simps [of n None] fib_heap.simps [of n "Some (length h)"])

lemma fib_heap_base: "n \<le> 1 \<Longrightarrow> fib_heap n (Some r) h = Inr (n, h)"
  by (simp add: fib_heap.simps [of n])

lemma fib_heap_hit: "1 < n \<Longrightarrow> (h ! r) n = Some v \<Longrightarrow> fib_heap n (Some r) h = Inr (v, h)"
  by (simp add: fib_heap.simps [of n] dict_contains_def dict_getitem_def)

lemma fib_heap_miss:
  "1 < n \<Longrightarrow> (h ! r) n = None \<Longrightarrow> fib_heap (n - 1) (Some r) h = Inr (a, h1) \<Longrightarrow>
   fib_heap (n - 2) (Some r) h1 = Inr (b, h2) \<Longrightarrow> r < length h2 \<Longrightarrow>
   fib_heap n (Some r) h = Inr (a + b, h2[r := (h2 ! r)(n \<mapsto> a + b)])"
  by (simp add: fib_heap.simps [of n] dict_contains_def dict_getitem_def dict_setitem_def)

section \<open>Reasoning about a call along its recursion\<close>

text \<open>
  One rule for every property of a call. A property \<open>P n memo v memo' t\<close> relates the
  argument and the dictionary before the call to the value returned, the dictionary
  after the call and the trace. If it holds for the base case, for a hit, and for a miss
  whenever it holds for the two recursive calls, then every call returns and satisfies
  it. The proof is by induction on \<open>nat n\<close>, the quantity both recursive calls decrease.
\<close>

lemma fib_traced_rule:
  assumes base: "\<And>n memo. n \<le> 1 \<Longrightarrow> P n memo n memo []"
    and hit: "\<And>n memo v. 1 < n \<Longrightarrow> memo n = Some v \<Longrightarrow>
                P n memo v memo [Contains n True, Getitem n v]"
    and miss: "\<And>n memo a memo1 t1 b memo2 t2.
                1 < n \<Longrightarrow> memo n = None \<Longrightarrow>
                fib_traced (n - 1) (Some memo) = Inr (a, memo1, t1) \<Longrightarrow>
                P (n - 1) memo a memo1 t1 \<Longrightarrow>
                fib_traced (n - 2) (Some memo1) = Inr (b, memo2, t2) \<Longrightarrow>
                P (n - 2) memo1 b memo2 t2 \<Longrightarrow>
                P n memo (a + b) (memo2(n \<mapsto> a + b))
                  ([Contains n False, Call n (n - 1)] @ t1 @ [Call n (n - 2)] @ t2 @
                   [Setitem n (a + b), Getitem n (a + b)])"
  shows "\<exists>v memo' t. fib_traced n (Some memo) = Inr (v, memo', t) \<and> P n memo v memo' t"
proof (induction "nat n" arbitrary: n memo rule: less_induct)
  case less
  show ?case
  proof (cases "n \<le> 1")
    case True
    then show ?thesis using base by (simp add: fib_traced_base)
  next
    case False
    then have n: "1 < n" by simp
    show ?thesis
    proof (cases "memo n")
      case (Some v)
      with n show ?thesis using hit by (simp add: fib_traced_hit)
    next
      case None
      from n obtain a memo1 t1
        where 1: "fib_traced (n - 1) (Some memo) = Inr (a, memo1, t1)"
          and p1: "P (n - 1) memo a memo1 t1"
        using less [of "n - 1" memo] by auto
      from n obtain b memo2 t2
        where 2: "fib_traced (n - 2) (Some memo1) = Inr (b, memo2, t2)"
          and p2: "P (n - 2) memo1 b memo2 t2"
        using less [of "n - 2" memo1] by auto
      from fib_traced_miss [OF n None 1 2] miss [OF n None 1 p1 2 p2]
      show ?thesis by simp
    qed
  qed
qed

lemma fib_traced_total: "\<exists>v memo' t. fib_traced n (Some memo) = Inr (v, memo', t)"
  using fib_traced_rule [of "\<lambda>_ _ _ _ _. True" n memo] by auto

text \<open>The trace is an addition: forgetting it gives \<open>fib\<close>.\<close>

lemma fib_erase_ex:
  "\<exists>v memo' t. fib_traced n (Some memo) = Inr (v, memo', t) \<and>
     fib n (Some memo) = Inr (v, memo')"
proof (rule fib_traced_rule [where P = "\<lambda>n memo v memo' t. fib n (Some memo) = Inr (v, memo')"])
  show "\<And>n memo. n \<le> 1 \<Longrightarrow> fib n (Some memo) = Inr (n, memo)"
    by (rule fib_base)
  show "\<And>n memo v. 1 < n \<Longrightarrow> memo n = Some v \<Longrightarrow> fib n (Some memo) = Inr (v, memo)"
    by (rule fib_hit)
  show "\<And>n memo a memo1 t1 b memo2 t2.
       1 < n \<Longrightarrow> memo n = None \<Longrightarrow>
       fib_traced (n - 1) (Some memo) = Inr (a, memo1, t1) \<Longrightarrow>
       fib (n - 1) (Some memo) = Inr (a, memo1) \<Longrightarrow>
       fib_traced (n - 2) (Some memo1) = Inr (b, memo2, t2) \<Longrightarrow>
       fib (n - 2) (Some memo1) = Inr (b, memo2) \<Longrightarrow>
       fib n (Some memo) = Inr (a + b, memo2(n \<mapsto> a + b))"
    by (rule fib_miss)
qed

lemma fib_erase:
  "fib_traced n (Some memo) = Inr (v, memo', t) \<Longrightarrow> fib n (Some memo) = Inr (v, memo')"
  using fib_erase_ex [of n memo] by auto

lemma fib_traced_erases:
  "fib n memo_arg =
     (case fib_traced n memo_arg of Inl e \<Rightarrow> Inl e | Inr (v, memo', t) \<Rightarrow> Inr (v, memo'))"
proof -
  have "fib n (Some memo) =
     (case fib_traced n (Some memo) of Inl e \<Rightarrow> Inl e | Inr (v, memo', t) \<Rightarrow> Inr (v, memo'))"
    for memo
    using fib_erase_ex [of n memo] by auto
  then show ?thesis
    by (cases memo_arg) (simp_all add: fib_None fib_traced_None)
qed

subsection \<open>What a call may change\<close>

text \<open>
  A call with argument \<open>n\<close> leaves alone every key that is present, every key below 2 and
  every key above \<open>n\<close>. After a call with \<open>n > 1\<close> the key \<open>n\<close> holds the value returned.
\<close>

lemma fib_traced_frame_ex:
  "\<exists>v memo' t. fib_traced n (Some memo) = Inr (v, memo', t) \<and>
     (\<forall>k. memo k \<noteq> None \<or> k < 2 \<or> n < k \<longrightarrow> memo' k = memo k)"
  by (rule fib_traced_rule) auto

lemma fib_traced_frame:
  "fib_traced n (Some memo) = Inr (v, memo', t) \<Longrightarrow> memo k \<noteq> None \<or> k < 2 \<or> n < k \<Longrightarrow>
   memo' k = memo k"
  using fib_traced_frame_ex [of n memo] by auto

lemma fib_traced_extends:
  "fib_traced n (Some memo) = Inr (v, memo', t) \<Longrightarrow> memo \<subseteq>\<^sub>m memo'"
  unfolding map_le_def using fib_traced_frame [of n memo v memo' t] by auto

lemma fib_traced_stored_ex:
  "\<exists>v memo' t. fib_traced n (Some memo) = Inr (v, memo', t) \<and> (1 < n \<longrightarrow> memo' n = Some v)"
  by (rule fib_traced_rule) auto

lemma fib_traced_stored:
  "fib_traced n (Some memo) = Inr (v, memo', t) \<Longrightarrow> 1 < n \<Longrightarrow> memo' n = Some v"
  using fib_traced_stored_ex [of n memo] by auto

lemma fib_traced_prev:
  assumes m: "2 < m" and none: "memo m = None"
    and run: "fib_traced m (Some memo) = Inr (v, memo', t)"
  shows "memo' (m - 1) \<noteq> None"
proof -
  obtain a memo1 t1 where 1: "fib_traced (m - 1) (Some memo) = Inr (a, memo1, t1)"
    using fib_traced_total [of "m - 1" memo] by auto
  obtain b memo2 t2 where 2: "fib_traced (m - 2) (Some memo1) = Inr (b, memo2, t2)"
    using fib_traced_total [of "m - 2" memo1] by auto
  from m have "memo1 (m - 1) = Some a" using fib_traced_stored [OF 1] by simp
  then have "memo2 (m - 1) = Some a" using fib_traced_frame [OF 2, of "m - 1"] by simp
  moreover have "memo' = memo2(m \<mapsto> a + b)"
    using fib_traced_miss [OF _ none 1 2] m run by simp
  ultimately show ?thesis by simp
qed

subsection \<open>The trace of a call\<close>

lemma replay_append:
  "replay memo (xs @ ys) =
     (case replay memo xs of None \<Rightarrow> None | Some memo' \<Rightarrow> replay memo' ys)"
  by (induction memo xs rule: replay.induct) simp_all

lemma recursive_calls_append:
  "recursive_calls (xs @ ys) = recursive_calls xs + recursive_calls ys"
proof (induction xs)
  case Nil
  show ?case by simp
next
  case (Cons e xs)
  then show ?case by (cases e) simp_all
qed

text \<open>
  What an accepted trace means: the dictionary only grows, every key is stored at most
  once and was absent before its store, and a read after a store gives the value stored.
\<close>

lemma replay_grows:
  "replay memo t = Some memo' \<Longrightarrow>
   memo \<subseteq>\<^sub>m memo' \<and> distinct (stored_keys t) \<and> (\<forall>k \<in> set (stored_keys t). memo k = None)"
proof (induction memo t rule: replay.induct)
  case (1 memo)
  then show ?case by simp
next
  case (2 memo m k es)
  then show ?case by simp
next
  case (3 memo k b es)
  then show ?case by (simp split: if_splits)
next
  case (4 memo k v es)
  then show ?case by (simp split: if_splits)
next
  case (5 memo k v es)
  define d where "d = dict_setitem memo k v"
  have d: "d j = (if j = k then Some v else memo j)" for j
    by (simp add: d_def dict_setitem_def)
  from "5.prems" have absent: "memo k = None" and rest: "replay d es = Some memo'"
    by (simp_all add: d_def dict_contains_def split: if_splits)
  from absent have "\<not> dict_contains memo k" by (simp add: dict_contains_def)
  from "5.IH" [OF this] rest
  have le: "d \<subseteq>\<^sub>m memo'" and dist: "distinct (stored_keys es)"
    and fresh: "\<forall>j \<in> set (stored_keys es). d j = None"
    by (simp_all add: d_def)
  from fresh d have "k \<notin> set (stored_keys es)" by auto
  moreover from fresh d have "\<forall>j \<in> set (stored_keys es). memo j = None"
    by (auto split: if_splits)
  moreover have "memo \<subseteq>\<^sub>m memo'"
    unfolding map_le_def
  proof
    fix j
    assume "j \<in> dom memo"
    with absent have "j \<noteq> k" by auto
    with d have "d j = memo j" by simp
    moreover from \<open>j \<in> dom memo\<close> this have "j \<in> dom d" by (auto simp: dom_def)
    with le have "d j = memo' j" by (simp add: map_le_def)
    ultimately show "memo j = memo' j" by simp
  qed
  ultimately show ?case using dist absent by simp
qed

lemma replay_read_after_store:
  assumes "replay memo (ta @ Setitem k x # tb @ Getitem k y # tc) = Some memo'"
  shows "y = x"
proof -
  from assms obtain d1 where 1: "replay memo ta = Some d1"
    and 2: "replay d1 (Setitem k x # tb @ Getitem k y # tc) = Some memo'"
    by (auto simp: replay_append split: option.splits)
  from 2 have 3: "replay (d1(k \<mapsto> x)) (tb @ Getitem k y # tc) = Some memo'"
    by (simp add: dict_contains_def dict_setitem_def split: if_splits)
  then obtain d3 where 4: "replay (d1(k \<mapsto> x)) tb = Some d3"
    and 5: "replay d3 (Getitem k y # tc) = Some memo'"
    by (auto simp: replay_append split: option.splits)
  from replay_grows [OF 4] have "d3 k = Some x" by (auto simp: map_le_def)
  moreover from 5 have "d3 k = Some y"
    by (simp add: dict_getitem_def split: if_splits option.splits)
  ultimately show ?thesis by simp
qed

lemma replay_store_absent:
  assumes "replay memo (ta @ Setitem k x # tb) = Some memo'"
  shows "\<exists>d. replay memo ta = Some d \<and> d k = None"
  using assms
  by (auto simp: replay_append dict_contains_def split: option.splits if_splits)

lemma fib_traced_replay_ex:
  "\<exists>v memo' t. fib_traced n (Some memo) = Inr (v, memo', t) \<and> replay memo t = Some memo'"
proof (rule fib_traced_rule)
  fix n :: int and memo a memo1 t1 b memo2 t2
  assume n: "1 < n" and none: "memo n = None"
    and 1: "fib_traced (n - 1) (Some memo) = Inr (a, memo1, t1)"
    and r1: "replay memo t1 = Some memo1"
    and 2: "fib_traced (n - 2) (Some memo1) = Inr (b, memo2, t2)"
    and r2: "replay memo1 t2 = Some memo2"
  have "memo1 n = None" using fib_traced_frame [OF 1, of n] none by simp
  then have "memo2 n = None" using fib_traced_frame [OF 2, of n] by simp
  then show "replay memo ([Contains n False, Call n (n - 1)] @ t1 @ [Call n (n - 2)] @ t2 @
                [Setitem n (a + b), Getitem n (a + b)]) = Some (memo2(n \<mapsto> a + b))"
    using none r1 r2
    by (simp add: replay_append dict_contains_def dict_setitem_def dict_getitem_def)
qed (simp_all add: dict_contains_def dict_getitem_def)

lemma fib_traced_replay:
  "fib_traced n (Some memo) = Inr (v, memo', t) \<Longrightarrow> replay memo t = Some memo'"
  using fib_traced_replay_ex [of n memo] by auto

lemma fib_traced_calls_decrease_ex:
  "\<exists>v memo' t. fib_traced n (Some memo) = Inr (v, memo', t) \<and>
     (\<forall>m k. Call m k \<in> set t \<longrightarrow>
        1 < m \<and> m \<le> n \<and> 0 \<le> k \<and> k < m \<and> (k = m - 1 \<or> k = m - 2))"
  by (rule fib_traced_rule) (auto, force+)

lemma fib_traced_calls_decrease:
  "fib_traced n (Some memo) = Inr (v, memo', t) \<Longrightarrow> Call m k \<in> set t \<Longrightarrow>
   1 < m \<and> m \<le> n \<and> 0 \<le> k \<and> k < m \<and> (k = m - 1 \<or> k = m - 2)"
  using fib_traced_calls_decrease_ex [of n memo] by auto

subsection \<open>The value returned\<close>

lemma fibonacci_small: "0 \<le> n \<Longrightarrow> n \<le> 1 \<Longrightarrow> fibonacci (nat n) = n"
proof -
  assume "0 \<le> n" "n \<le> 1"
  then have "n = 0 \<or> n = 1" by arith
  then show ?thesis by auto
qed

lemma fibonacci_int_rec:
  assumes "2 \<le> n"
  shows "fibonacci (nat n) = fibonacci (nat (n - 1)) + fibonacci (nat (n - 2))"
proof -
  have "nat n = Suc (Suc (nat (n - 2)))" "nat (n - 1) = Suc (nat (n - 2))"
    using assms by simp_all
  then show ?thesis by simp
qed

lemma fib_traced_correct_ex:
  "\<exists>v memo' t. fib_traced n (Some memo) = Inr (v, memo', t) \<and>
     (0 \<le> n \<longrightarrow> entries_correct n memo \<longrightarrow> v = fibonacci (nat n) \<and> entries_correct n memo')"
proof (rule fib_traced_rule)
  fix n :: int and memo :: memo
  assume "n \<le> 1"
  then show "0 \<le> n \<longrightarrow> entries_correct n memo \<longrightarrow>
               n = fibonacci (nat n) \<and> entries_correct n memo"
    by (simp add: fibonacci_small)
next
  fix n :: int and memo :: memo and v
  assume "1 < n" "memo n = Some v"
  then show "0 \<le> n \<longrightarrow> entries_correct n memo \<longrightarrow>
               v = fibonacci (nat n) \<and> entries_correct n memo"
    by (auto simp: entries_correct_def)
next
  fix n :: int and memo a memo1 t1 b memo2 t2
  assume n: "1 < n" and none: "memo n = None"
    and 1: "fib_traced (n - 1) (Some memo) = Inr (a, memo1, t1)"
    and p1: "0 \<le> n - 1 \<longrightarrow> entries_correct (n - 1) memo \<longrightarrow>
               a = fibonacci (nat (n - 1)) \<and> entries_correct (n - 1) memo1"
    and 2: "fib_traced (n - 2) (Some memo1) = Inr (b, memo2, t2)"
    and p2: "0 \<le> n - 2 \<longrightarrow> entries_correct (n - 2) memo1 \<longrightarrow>
               b = fibonacci (nat (n - 2)) \<and> entries_correct (n - 2) memo2"
  show "0 \<le> n \<longrightarrow> entries_correct n memo \<longrightarrow>
          a + b = fibonacci (nat n) \<and> entries_correct n (memo2(n \<mapsto> a + b))"
  proof (intro impI)
    assume ok: "entries_correct n memo"
    then have "entries_correct (n - 1) memo" by (simp add: entries_correct_def)
    with p1 n have a: "a = fibonacci (nat (n - 1))" and ok1: "entries_correct (n - 1) memo1"
      by simp_all
    from ok1 have "entries_correct (n - 2) memo1" by (simp add: entries_correct_def)
    with p2 n have b: "b = fibonacci (nat (n - 2))" and ok2: "entries_correct (n - 2) memo2"
      by simp_all
    have keep: "memo2 (n - 1) = memo1 (n - 1)"
      using fib_traced_frame [OF 2, of "n - 1"] by simp
    have ab: "a + b = fibonacci (nat n)"
      using a b n fibonacci_int_rec [of n] by simp
    have "entries_correct n (memo2(n \<mapsto> a + b))"
      unfolding entries_correct_def
    proof (intro allI impI)
      fix k x
      assume k: "2 \<le> k \<and> k \<le> n \<and> (memo2(n \<mapsto> a + b)) k = Some x"
      consider "k = n" | "k = n - 1" | "k \<le> n - 2" using k by arith
      then show "x = fibonacci (nat k)"
      proof cases
        case 1
        with k ab show ?thesis by simp
      next
        case 2
        with k keep ok1 show ?thesis by (simp add: entries_correct_def)
      next
        case 3
        with k ok2 show ?thesis by (simp add: entries_correct_def)
      qed
    qed
    with ab show "a + b = fibonacci (nat n) \<and> entries_correct n (memo2(n \<mapsto> a + b))"
      by simp
  qed
qed

lemma fib_traced_correct:
  "fib_traced n (Some memo) = Inr (v, memo', t) \<Longrightarrow> 0 \<le> n \<Longrightarrow> entries_correct n memo \<Longrightarrow>
   v = fibonacci (nat n)"
  using fib_traced_correct_ex [of n memo] by auto

subsection \<open>A call on the empty dictionary\<close>

lemma fib_table_small: "n \<le> 1 \<Longrightarrow> fib_table n = Map.empty"
  by (auto simp: fib_table_def)

lemma fib_table_step:
  "2 \<le> n \<Longrightarrow> (fib_table (n - 1))(n \<mapsto> fibonacci (nat n)) = fib_table n"
  by (auto simp: fib_table_def)

lemma dom_fib_table: "dom (fib_table n) = {2..n}"
  by (auto simp: fib_table_def dom_def)

text \<open>On a table that reaches the argument, a call is a base case or a hit.\<close>

lemma fib_traced_table:
  assumes "0 \<le> k" and "k \<le> n"
  shows "\<exists>t. fib_traced k (Some (fib_table n)) = Inr (fibonacci (nat k), fib_table n, t) \<and>
              recursive_calls t = 0"
proof (cases "k \<le> 1")
  case True
  with assms show ?thesis by (simp add: fib_traced_base fibonacci_small)
next
  case False
  with assms have "fib_table n k = Some (fibonacci (nat k))" by (simp add: fib_table_def)
  with False show ?thesis by (simp add: fib_traced_hit)
qed

lemma fib_traced_empty_ex:
  "\<exists>v memo' t. fib_traced n (Some memo) = Inr (v, memo', t) \<and>
     (memo = Map.empty \<longrightarrow> 0 \<le> n \<longrightarrow>
        v = fibonacci (nat n) \<and> memo' = fib_table n \<and> recursive_calls t = 2 * nat (n - 1))"
proof (rule fib_traced_rule)
  fix n :: int and memo :: memo
  assume "n \<le> 1"
  then show "memo = Map.empty \<longrightarrow> 0 \<le> n \<longrightarrow>
       n = fibonacci (nat n) \<and> memo = fib_table n \<and> recursive_calls [] = 2 * nat (n - 1)"
    by (simp add: fibonacci_small fib_table_small)
next
  fix n :: int and memo :: memo and v
  assume "1 < n" "memo n = Some v"
  then show "memo = Map.empty \<longrightarrow> 0 \<le> n \<longrightarrow>
       v = fibonacci (nat n) \<and> memo = fib_table n \<and>
       recursive_calls [Contains n True, Getitem n v] = 2 * nat (n - 1)"
    by auto
next
  fix n :: int and memo a memo1 t1 b memo2 t2
  assume n: "1 < n" and none: "memo n = None"
    and 1: "fib_traced (n - 1) (Some memo) = Inr (a, memo1, t1)"
    and p1: "memo = Map.empty \<longrightarrow> 0 \<le> n - 1 \<longrightarrow>
       a = fibonacci (nat (n - 1)) \<and> memo1 = fib_table (n - 1) \<and>
       recursive_calls t1 = 2 * nat (n - 1 - 1)"
    and 2: "fib_traced (n - 2) (Some memo1) = Inr (b, memo2, t2)"
  show "memo = Map.empty \<longrightarrow> 0 \<le> n \<longrightarrow>
       a + b = fibonacci (nat n) \<and> memo2(n \<mapsto> a + b) = fib_table n \<and>
       recursive_calls ([Contains n False, Call n (n - 1)] @ t1 @ [Call n (n - 2)] @ t2 @
          [Setitem n (a + b), Getitem n (a + b)]) = 2 * nat (n - 1)"
  proof (intro impI)
    assume "memo = Map.empty"
    with p1 n have a: "a = fibonacci (nat (n - 1))" and m1: "memo1 = fib_table (n - 1)"
      and c1: "recursive_calls t1 = 2 * nat (n - 2)" by simp_all
    from n fib_traced_table [of "n - 2" "n - 1"] 2 m1
    have b: "b = fibonacci (nat (n - 2))" and m2: "memo2 = fib_table (n - 1)"
      and c2: "recursive_calls t2 = 0" by auto
    have ab: "a + b = fibonacci (nat n)"
      using a b n fibonacci_int_rec [of n] by simp
    have "memo2(n \<mapsto> a + b) = fib_table n"
      using n by (simp add: m2 ab fib_table_step)
    moreover have "recursive_calls ([Contains n False, Call n (n - 1)] @ t1 @
          [Call n (n - 2)] @ t2 @ [Setitem n (a + b), Getitem n (a + b)]) = 2 * nat (n - 1)"
      using n c1 c2 by (simp add: recursive_calls_append nat_diff_distrib)
    ultimately show "a + b = fibonacci (nat n) \<and> memo2(n \<mapsto> a + b) = fib_table n \<and>
       recursive_calls ([Contains n False, Call n (n - 1)] @ t1 @ [Call n (n - 2)] @ t2 @
          [Setitem n (a + b), Getitem n (a + b)]) = 2 * nat (n - 1)"
      using ab by simp
  qed
qed

lemma fib_traced_empty:
  "0 \<le> n \<Longrightarrow>
   \<exists>t. fib_traced n (Some Map.empty) = Inr (fibonacci (nat n), fib_table n, t) \<and>
       recursive_calls t = 2 * nat (n - 1)"
  using fib_traced_empty_ex [of n Map.empty] by auto

lemma fib_empty: "0 \<le> n \<Longrightarrow> fib n (Some Map.empty) = Inr (fibonacci (nat n), fib_table n)"
  using fib_traced_empty [of n] fib_erase [of n Map.empty] by auto

subsection \<open>Counting the recursive calls\<close>

text \<open>
  After a miss at \<open>n - 1\<close> the second recursive call, at \<open>n - 2\<close>, finds its entry (or is a
  base case): it makes no further call. After a hit at \<open>n - 1\<close> the first call made none.
  So a call with argument \<open>n\<close> makes at most \<open>2 (n - 1)\<close> recursive calls, exactly that
  many from the empty dictionary, and fewer as soon as one key from 2 to \<open>n\<close> is present.
\<close>

lemma fib_traced_second_call:
  assumes n: "1 < n" and none: "memo (n - 1) = None"
    and 1: "fib_traced (n - 1) (Some memo) = Inr (a, memo1, t1)"
    and 2: "fib_traced (n - 2) (Some memo1) = Inr (b, memo2, t2)"
  shows "recursive_calls t2 = 0"
proof (cases "n - 2 \<le> 1")
  case True
  with 2 show ?thesis by (simp add: fib_traced_base)
next
  case False
  then have "2 < n - 1" by simp
  from fib_traced_prev [OF this none 1] obtain x where "memo1 (n - 2) = Some x" by auto
  with False 2 show ?thesis by (auto simp: fib_traced_hit)
qed

lemma fib_traced_first_hit:
  assumes "2 < n" and "memo (n - 1) \<noteq> None"
    and "fib_traced (n - 1) (Some memo) = Inr (a, memo1, t1)"
  shows "recursive_calls t1 = 0"
  using assms by (auto simp: fib_traced_hit)

lemma fib_traced_calls_le_ex:
  "\<exists>v memo' t. fib_traced n (Some memo) = Inr (v, memo', t) \<and>
     recursive_calls t \<le> 2 * nat (n - 1)"
proof (rule fib_traced_rule)
  fix n :: int and memo a memo1 t1 b memo2 t2
  assume n: "1 < n" and none: "memo n = None"
    and 1: "fib_traced (n - 1) (Some memo) = Inr (a, memo1, t1)"
    and p1: "recursive_calls t1 \<le> 2 * nat (n - 1 - 1)"
    and 2: "fib_traced (n - 2) (Some memo1) = Inr (b, memo2, t2)"
    and p2: "recursive_calls t2 \<le> 2 * nat (n - 2 - 1)"
  have "recursive_calls t1 + recursive_calls t2 \<le> 2 * nat (n - 2)"
  proof (cases "memo (n - 1)")
    case None
    from fib_traced_second_call [OF n None 1 2] p1 show ?thesis by simp
  next
    case (Some x)
    show ?thesis
    proof (cases "n = 2")
      case True
      with p1 p2 show ?thesis by simp
    next
      case False
      with n have "2 < n" by simp
      from fib_traced_first_hit [OF this _ 1] Some have "recursive_calls t1 = 0" by simp
      with p2 show ?thesis by simp
    qed
  qed
  with n show "recursive_calls ([Contains n False, Call n (n - 1)] @ t1 @ [Call n (n - 2)] @
          t2 @ [Setitem n (a + b), Getitem n (a + b)]) \<le> 2 * nat (n - 1)"
    by (simp add: recursive_calls_append nat_diff_distrib)
qed simp_all

lemma fib_traced_calls_le:
  "fib_traced n (Some memo) = Inr (v, memo', t) \<Longrightarrow> recursive_calls t \<le> 2 * nat (n - 1)"
  using fib_traced_calls_le_ex [of n memo] by auto

lemma fib_traced_calls_less_ex:
  "\<exists>v memo' t. fib_traced n (Some memo) = Inr (v, memo', t) \<and>
     ((\<exists>k. 2 \<le> k \<and> k \<le> n \<and> memo k \<noteq> None) \<longrightarrow> recursive_calls t < 2 * nat (n - 1))"
proof (rule fib_traced_rule)
  fix n :: int and memo a memo1 t1 b memo2 t2
  assume n: "1 < n" and none: "memo n = None"
    and 1: "fib_traced (n - 1) (Some memo) = Inr (a, memo1, t1)"
    and p1: "(\<exists>k. 2 \<le> k \<and> k \<le> n - 1 \<and> memo k \<noteq> None) \<longrightarrow>
               recursive_calls t1 < 2 * nat (n - 1 - 1)"
    and 2: "fib_traced (n - 2) (Some memo1) = Inr (b, memo2, t2)"
  show "(\<exists>k. 2 \<le> k \<and> k \<le> n \<and> memo k \<noteq> None) \<longrightarrow>
        recursive_calls ([Contains n False, Call n (n - 1)] @ t1 @ [Call n (n - 2)] @ t2 @
          [Setitem n (a + b), Getitem n (a + b)]) < 2 * nat (n - 1)"
  proof
    assume "\<exists>k. 2 \<le> k \<and> k \<le> n \<and> memo k \<noteq> None"
    then obtain k where k: "2 \<le> k" "k \<le> n" "memo k \<noteq> None" by auto
    with none have "k \<noteq> n" by auto
    with k have k': "k \<le> n - 1" and n3: "2 < n" by simp_all
    have "recursive_calls t1 + recursive_calls t2 < 2 * nat (n - 2)"
    proof (cases "memo (n - 1)")
      case None
      from k k' p1 have "recursive_calls t1 < 2 * nat (n - 2)" by auto
      with fib_traced_second_call [OF n None 1 2] show ?thesis by simp
    next
      case (Some x)
      from fib_traced_first_hit [OF n3 _ 1] Some have "recursive_calls t1 = 0" by simp
      moreover have "recursive_calls t2 \<le> 2 * nat (n - 2 - 1)"
        by (rule fib_traced_calls_le [OF 2])
      ultimately show ?thesis using n3 by (simp add: nat_diff_distrib)
    qed
    with n show "recursive_calls ([Contains n False, Call n (n - 1)] @ t1 @
          [Call n (n - 2)] @ t2 @ [Setitem n (a + b), Getitem n (a + b)]) < 2 * nat (n - 1)"
      by (simp add: recursive_calls_append nat_diff_distrib)
  qed
qed auto

lemma fib_traced_calls_less:
  "fib_traced n (Some memo) = Inr (v, memo', t) \<Longrightarrow> 2 \<le> k \<Longrightarrow> k \<le> n \<Longrightarrow> memo k \<noteq> None \<Longrightarrow>
   recursive_calls t < 2 * nat (n - 1)"
  using fib_traced_calls_less_ex [of n memo] by auto

subsection \<open>The heap version updates one object\<close>

text \<open>
  Called with a reference \<open>r\<close>, \<open>fib_heap\<close> returns what \<open>fib\<close> returns on the dictionary
  stored at \<open>r\<close>, and the heap afterwards differs from the heap before at \<open>r\<close> only.
\<close>

lemma fib_heap_refines_ex:
  "\<exists>v memo' t. fib_traced n (Some memo) = Inr (v, memo', t) \<and>
     (\<forall>h r. r < length h \<and> h ! r = memo \<longrightarrow> fib_heap n (Some r) h = Inr (v, h[r := memo']))"
proof (rule fib_traced_rule)
  fix n :: int and memo :: memo
  assume "n \<le> 1"
  then show "\<forall>h r. r < length h \<and> h ! r = memo \<longrightarrow>
               fib_heap n (Some r) h = Inr (n, h[r := memo])"
    by (auto simp: fib_heap_base)
next
  fix n :: int and memo :: memo and v
  assume "1 < n" "memo n = Some v"
  then show "\<forall>h r. r < length h \<and> h ! r = memo \<longrightarrow>
               fib_heap n (Some r) h = Inr (v, h[r := memo])"
    by (auto simp: fib_heap_hit)
next
  fix n :: int and memo a memo1 t1 b memo2 t2
  assume n: "1 < n" and none: "memo n = None"
    and p1: "\<forall>h r. r < length h \<and> h ! r = memo \<longrightarrow>
               fib_heap (n - 1) (Some r) h = Inr (a, h[r := memo1])"
    and p2: "\<forall>h r. r < length h \<and> h ! r = memo1 \<longrightarrow>
               fib_heap (n - 2) (Some r) h = Inr (b, h[r := memo2])"
  show "\<forall>h r. r < length h \<and> h ! r = memo \<longrightarrow>
          fib_heap n (Some r) h = Inr (a + b, h[r := memo2(n \<mapsto> a + b)])"
  proof (intro allI impI)
    fix h :: heap and r
    assume hr: "r < length h \<and> h ! r = memo"
    with p1 have 1: "fib_heap (n - 1) (Some r) h = Inr (a, h[r := memo1])" by simp
    from hr p2
    have 2: "fib_heap (n - 2) (Some r) (h[r := memo1]) = Inr (b, h[r := memo1, r := memo2])"
      by simp
    from hr none have "(h ! r) n = None" by simp
    from fib_heap_miss [OF n this 1 2] hr
    show "fib_heap n (Some r) h = Inr (a + b, h[r := memo2(n \<mapsto> a + b)])" by simp
  qed
qed

lemma fib_heap_refines:
  "fib n (Some (h ! r)) = Inr (v, memo') \<Longrightarrow> r < length h \<Longrightarrow>
   fib_heap n (Some r) h = Inr (v, h[r := memo'])"
  using fib_heap_refines_ex [of n "h ! r"] fib_erase [of n "h ! r"] by auto

lemma fib_total: "\<exists>v memo'. fib n (Some memo) = Inr (v, memo')"
  using fib_erase_ex [of n memo] by auto

subsection \<open>Values used by the entry point\<close>

lemma fibonacci_16: "fibonacci 16 = 987"
  by code_simp

lemma str_16: "str 16 = ''16''"
  by code_simp

lemma str_987: "str 987 = ''987''"
  by code_simp

section \<open>The claims\<close>

text \<open>
  C1. For every integer \<open>n \<ge> 0\<close>, \<open>fib(n)\<close> called with a fresh dictionary (the dictionary
  omitted, or a new empty one passed) returns the \<open>n\<close>th Fibonacci number of the recurrence
  \<open>F(0) = 0\<close>, \<open>F(1) = 1\<close>, \<open>F(n) = F(n-1) + F(n-2)\<close>.
\<close>

theorem fib_returns_fibonacci:
  "0 \<le> n \<Longrightarrow>
   returned (fib n None) = Inr (fibonacci (nat n)) \<and>
   returned (fib n (Some Map.empty)) = Inr (fibonacci (nat n))"
  by (simp add: fib_None fib_empty returned_def)

theorem fib_returns_fibonacci_witness:
  "(0::int) \<le> 10 \<and> returned (fib 10 None) = Inr 55 \<and>
   returned (fib 10 (Some Map.empty)) = Inr 55"
proof -
  have "fibonacci (nat 10) = 55" by code_simp
  with fib_returns_fibonacci [of 10] show ?thesis by simp
qed

text \<open>
  C2, as stated: after \<open>fib(n, memo)\<close> on a dictionary that started empty, every key \<open>k\<close>
  from 0 to \<open>n\<close> is in the dictionary with the value \<open>F(k)\<close>. This fails for the keys 0
  and 1: the base case returns before the dictionary is touched, so after \<open>fib(2, {})\<close>
  the key 0 is absent.
\<close>

theorem cache_lacks_key_0_counterexample:
  "entry_after (fib 2 (Some Map.empty)) 0 = Inr None"
  by (simp add: fib_empty entry_after_def fib_table_def)

text \<open>
  C2, amended: after \<open>fib(n, memo)\<close> on a dictionary that started empty, every key \<open>k\<close>
  from 2 to \<open>n\<close> is in the dictionary with the value \<open>F(k)\<close>.
\<close>

theorem cache_holds_fibonacci_from_2:
  "2 \<le> k \<Longrightarrow> k \<le> n \<Longrightarrow>
   entry_after (fib n (Some Map.empty)) k = Inr (Some (fibonacci (nat k)))"
  by (simp add: fib_empty entry_after_def fib_table_def)

theorem cache_holds_fibonacci_from_2_witness:
  "(2::int) \<le> 3 \<and> (3::int) \<le> 5 \<and> entry_after (fib 5 (Some Map.empty)) 3 = Inr (Some 2)"
proof -
  have "fibonacci (nat 3) = 2" by code_simp
  with cache_holds_fibonacci_from_2 [of 3 5] show ?thesis by simp
qed

text \<open>
  C3, as stated: for every integer \<open>n < 0\<close>, \<open>fib(n)\<close> fails with an invalid-argument
  error. The function has no check of its argument and raises nothing for a negative
  one: \<open>fib(-1)\<close> returns \<open>-1\<close>.
\<close>

theorem negative_index_counterexample:
  "returned (fib (- 1) None) = Inr (- 1)"
  by (simp add: fib_None fib_base returned_def)

text \<open>
  C3, amended: for every integer \<open>n < 0\<close> and every dictionary argument, \<open>fib(n)\<close> returns
  \<open>n\<close> itself; it raises no error and makes no recursive call.
\<close>

theorem fib_negative_returns_argument:
  "n < 0 \<Longrightarrow>
   returned (fib n memo_arg) = Inr n \<and> calls_made (fib_traced n memo_arg) = Inr 0"
proof (cases memo_arg)
  case None
  assume "n < 0"
  with None show ?thesis
    by (simp add: fib_None fib_traced_None fib_base fib_traced_base returned_def calls_made_def)
next
  case (Some memo)
  assume "n < 0"
  with Some show ?thesis
    by (simp add: fib_base fib_traced_base returned_def calls_made_def)
qed

theorem fib_negative_returns_argument_witness:
  "(- 3::int) < 0 \<and> returned (fib (- 3) None) = Inr (- 3) \<and>
   calls_made (fib_traced (- 3) None) = Inr 0"
  using fib_negative_returns_argument [of "- 3" None] by simp

text \<open>
  C4. Run with no input, the entry point sets \<open>n = 16\<close>, computes \<open>fib(16)\<close> and writes to
  standard output exactly the line \<open>The 16th Fibonacci number is: 987\<close>; the exit
  status is 0.
\<close>

theorem main_prints_fib_16:
  "main = Inr ''The 16th Fibonacci number is: 987\<newline>'' \<and> exit_status main = 0"
proof -
  have "fib 16 None = Inr (987, fib_table 16)"
    using fib_empty [of 16] fibonacci_16 by (simp add: fib_None)
  then have out: "main = Inr ''The 16th Fibonacci number is: 987\<newline>''"
    by (simp add: main_def str_16 str_987 print_def)
  show ?thesis by (simp add: out exit_status_def)
qed

text \<open>
  C5. During a call \<open>fib(n, memo)\<close>, with any dictionary or none, the dictionary is
  changed only by insertion of new keys: no entry is removed or overwritten, a read of a
  key after its entry was stored gives the stored value, and each key is stored at most
  once. In terms of the trace \<open>t\<close> of the call and the dictionary \<open>memo\<close> it starts with:
  \<open>replay\<close> accepts \<open>t\<close> from \<open>memo\<close> and ends in the dictionary after the call; \<open>memo\<close> is
  contained in the dictionary after the call; the stored keys are distinct; just before
  each store its key is absent; and a read after a store of the same key gives the value
  stored.
\<close>

theorem cache_is_insert_only:
  "\<exists>memo v memo' t.
     memo = (case memo_arg of None \<Rightarrow> Map.empty | Some d \<Rightarrow> d) \<and>
     fib_traced n memo_arg = Inr (v, memo', t) \<and>
     fib n memo_arg = Inr (v, memo') \<and>
     replay memo t = Some memo' \<and>
     memo \<subseteq>\<^sub>m memo' \<and>
     distinct (stored_keys t) \<and>
     (\<forall>ta k x tb. t = ta @ Setitem k x # tb \<longrightarrow> (\<exists>d. replay memo ta = Some d \<and> d k = None)) \<and>
     (\<forall>ta k x tb y tc. t = ta @ Setitem k x # tb @ Getitem k y # tc \<longrightarrow> y = x)"
proof -
  define memo where "memo = (case memo_arg of None \<Rightarrow> Map.empty | Some d \<Rightarrow> d)"
  have tr: "fib_traced n memo_arg = fib_traced n (Some memo)"
    by (cases memo_arg) (simp_all add: memo_def fib_traced_None)
  have f: "fib n memo_arg = fib n (Some memo)"
    by (cases memo_arg) (simp_all add: memo_def fib_None)
  obtain v memo' t where run: "fib_traced n (Some memo) = Inr (v, memo', t)"
    using fib_traced_total [of n memo] by auto
  have r: "replay memo t = Some memo'" by (rule fib_traced_replay [OF run])
  have "fib n (Some memo) = Inr (v, memo')" by (rule fib_erase [OF run])
  moreover have "memo \<subseteq>\<^sub>m memo'" "distinct (stored_keys t)"
    using replay_grows [OF r] by simp_all
  moreover have "\<forall>ta k x tb. t = ta @ Setitem k x # tb \<longrightarrow>
                   (\<exists>d. replay memo ta = Some d \<and> d k = None)"
    using r replay_store_absent by blast
  moreover have "\<forall>ta k x tb y tc. t = ta @ Setitem k x # tb @ Getitem k y # tc \<longrightarrow> y = x"
    using r replay_read_after_store by blast
  ultimately show ?thesis unfolding tr f using run r memo_def by blast
qed

theorem cache_is_insert_only_witness:
  "\<exists>v memo' t.
     fib_traced 3 (Some [2 \<mapsto> 1]) = Inr (v, memo', t) \<and>
     replay [2 \<mapsto> 1] t = Some memo' \<and>
     [2 \<mapsto> 1] \<subseteq>\<^sub>m memo' \<and>
     distinct (stored_keys t) \<and>
     t = [Contains 3 False, Call 3 2, Contains 2 True, Getitem 2 1, Call 3 1] @
         Setitem 3 2 # [] @ Getitem 3 2 # []"
proof -
  have run: "fib_traced 3 (Some [2 \<mapsto> 1]) =
      Inr (2, [2 \<mapsto> 1, 3 \<mapsto> 2],
           [Contains 3 False, Call 3 2, Contains 2 True, Getitem 2 1, Call 3 1,
            Setitem 3 2, Getitem 3 2])"
    by (simp add: fib_traced.simps [of 3] fib_traced.simps [of 2] fib_traced.simps [of 1]
        dict_contains_def dict_getitem_def dict_setitem_def)
  from cache_is_insert_only [of "Some [2 \<mapsto> 1]" 3] show ?thesis
    unfolding run by auto
qed

text \<open>
  C6, as stated: called with a pre-populated dictionary whose entries for indices below
  \<open>n\<close> are correct, \<open>fib(n, memo)\<close> leaves these entries unchanged, returns \<open>F(n)\<close> and
  makes strictly fewer recursive calls than with an empty dictionary. The last part
  fails when the entries are at the indices 0 and 1 only, which the function never
  looks up: with \<open>{0: 0, 1: 1}\<close>, which holds the correct entry for every index below 2,
  \<open>fib(2, memo)\<close> makes 2 recursive calls, as many as from the empty dictionary.
\<close>

theorem cache_reuse_counterexample:
  "correct_below 2 [0 \<mapsto> 0, 1 \<mapsto> 1] \<and>
   calls_made (fib_traced 2 (Some [0 \<mapsto> 0, 1 \<mapsto> 1])) = Inr 2 \<and>
   calls_made (fib_traced 2 None) = Inr 2"
proof -
  have "correct_below 2 [0 \<mapsto> 0, 1 \<mapsto> 1]"
    by (auto simp: correct_below_def split: if_splits)
  moreover have "calls_made (fib_traced 2 (Some [0 \<mapsto> 0, 1 \<mapsto> 1])) = Inr 2"
    by (simp add: fib_traced.simps [of 2] fib_traced.simps [of 1] fib_traced.simps [of 0]
        dict_contains_def dict_getitem_def dict_setitem_def calls_made_def)
  moreover have "calls_made (fib_traced 2 None) = Inr 2"
    by (simp add: fib_traced.simps [of 2] fib_traced.simps [of 1] fib_traced.simps [of 0]
        dict_contains_def dict_getitem_def dict_setitem_def calls_made_def)
  ultimately show ?thesis by simp
qed

text \<open>
  C6, amended: called with a dictionary all of whose entries are correct Fibonacci values
  at indices from 0 up to, not including, \<open>n\<close>, at least one of them at an index \<open>k \<ge> 2\<close>,
  \<open>fib(n, memo)\<close> leaves these entries unchanged, returns \<open>F(n)\<close> and makes strictly fewer
  recursive calls than \<open>fib(n)\<close> with an empty dictionary.
\<close>

theorem cache_reuse_saves_calls:
  assumes "correct_below n memo" and "2 \<le> k" and "memo k \<noteq> None"
  shows "\<exists>memo' t memo0 t0.
     fib_traced n (Some memo) = Inr (fibonacci (nat n), memo', t) \<and>
     fib n (Some memo) = Inr (fibonacci (nat n), memo') \<and>
     memo \<subseteq>\<^sub>m memo' \<and>
     fib_traced n None = Inr (fibonacci (nat n), memo0, t0) \<and>
     recursive_calls t < recursive_calls t0"
proof -
  from assms have k: "k < n" by (auto simp: correct_below_def)
  with assms have n: "0 \<le> n" by simp
  from assms(1) have ok: "entries_correct n memo"
    by (auto simp: correct_below_def entries_correct_def)
  obtain v memo' t where run: "fib_traced n (Some memo) = Inr (v, memo', t)"
    using fib_traced_total [of n memo] by auto
  from fib_traced_correct [OF run n ok] have v: "v = fibonacci (nat n)" .
  obtain t0 where run0: "fib_traced n None = Inr (fibonacci (nat n), fib_table n, t0)"
    and c0: "recursive_calls t0 = 2 * nat (n - 1)"
    using fib_traced_empty [OF n] by (auto simp: fib_traced_None)
  have "recursive_calls t < 2 * nat (n - 1)"
    using fib_traced_calls_less [OF run assms(2) _ assms(3)] k by simp
  with c0 have "recursive_calls t < recursive_calls t0" by simp
  moreover have "memo \<subseteq>\<^sub>m memo'" by (rule fib_traced_extends [OF run])
  moreover have "fib n (Some memo) = Inr (v, memo')" by (rule fib_erase [OF run])
  ultimately show ?thesis using run run0 v by blast
qed

theorem cache_reuse_saves_calls_witness:
  "correct_below 4 [2 \<mapsto> 1] \<and> (2::int) \<le> 2 \<and> [2 \<mapsto> 1::int] (2::int) \<noteq> None \<and>
   (\<exists>memo' t memo0 t0.
     fib_traced 4 (Some [2 \<mapsto> 1]) = Inr (3, memo', t) \<and>
     fib 4 (Some [2 \<mapsto> 1]) = Inr (3, memo') \<and>
     [2 \<mapsto> 1] \<subseteq>\<^sub>m memo' \<and>
     fib_traced 4 None = Inr (3, memo0, t0) \<and>
     recursive_calls t < recursive_calls t0)"
proof -
  have three: "fibonacci (nat 4) = 3" by code_simp
  have pre: "correct_below 4 [2 \<mapsto> 1]"
    by (auto simp: correct_below_def eval_nat_numeral split: if_splits)
  have le: "(2::int) \<le> 2" by simp
  have present: "[2 \<mapsto> 1::int] (2::int) \<noteq> None" by simp
  have "\<exists>memo' t memo0 t0.
     fib_traced 4 (Some [2 \<mapsto> 1]) = Inr (3, memo', t) \<and>
     fib 4 (Some [2 \<mapsto> 1]) = Inr (3, memo') \<and>
     [2 \<mapsto> 1] \<subseteq>\<^sub>m memo' \<and>
     fib_traced 4 None = Inr (3, memo0, t0) \<and>
     recursive_calls t < recursive_calls t0"
    using cache_reuse_saves_calls [OF pre le present] by (simp only: three)
  with pre le present show ?thesis by blast
qed

text \<open>
  C7. For every integer \<open>n \<le> 1\<close> and every dictionary, \<open>fib(n, memo)\<close> returns \<open>n\<close> with no
  access to the dictionary (the trace is empty and the dictionary is returned as it
  was), also when the dictionary holds an entry for the key \<open>n\<close>; in particular
  \<open>fib(0) = 0\<close> and \<open>fib(1) = 1\<close>.
\<close>

theorem base_case_ignores_cache:
  "n \<le> 1 \<Longrightarrow>
   fib n (Some memo) = Inr (n, memo) \<and>
   fib_traced n (Some memo) = Inr (n, memo, []) \<and>
   returned (fib n None) = Inr n \<and>
   returned (fib 0 memo_arg) = Inr 0 \<and>
   returned (fib 1 memo_arg) = Inr 1"
  by (cases memo_arg) (simp_all add: fib_None fib_base fib_traced_base returned_def)

theorem base_case_ignores_cache_witness:
  "(1::int) \<le> 1 \<and>
   fib 1 (Some [1 \<mapsto> 42]) = Inr (1, [1 \<mapsto> 42]) \<and>
   fib_traced 1 (Some [1 \<mapsto> 42]) = Inr (1, [1 \<mapsto> 42], []) \<and>
   returned (fib 1 None) = Inr 1"
  using base_case_ignores_cache [of 1 "[1 \<mapsto> 42]" None] by simp

text \<open>
  C8. Calling \<open>fib(n)\<close> again and again with the dictionary omitted gives the same result
  each time, because each such call allocates a dictionary of its own: on any heap \<open>h\<close>,
  the call returns a value \<open>v\<close> and a heap \<open>h1\<close> that is \<open>h\<close>, untouched, with one new
  object; a second call on \<open>h1\<close> returns the same \<open>v\<close> and leaves \<open>h1\<close>, the first call's
  dictionary included, untouched, with one more new object. The call is the call with a
  reference to a new empty dictionary, and \<open>v\<close> is the value \<open>fib\<close> returns on the empty
  dictionary.
\<close>

theorem omitted_cache_is_fresh:
  "\<exists>v h1 h2.
     fib_heap n None h = Inr (v, h1) \<and>
     length h1 = Suc (length h) \<and> take (length h) h1 = h \<and>
     fib_heap n None h1 = Inr (v, h2) \<and>
     length h2 = Suc (length h1) \<and> take (length h1) h2 = h1 \<and>
     fib_heap n (Some (length h)) (h @ [Map.empty]) = Inr (v, h1) \<and>
     returned (fib n None) = Inr v \<and>
     returned (fib n (Some Map.empty)) = Inr v"
proof -
  obtain v m where run: "fib n (Some Map.empty) = Inr (v, m)"
    using fib_total [of n Map.empty] by auto
  have fresh: "fib_heap n (Some (length g)) (g @ [Map.empty]) = Inr (v, g @ [m])" for g
    using fib_heap_refines [of n "g @ [Map.empty]" "length g" v m] run by simp
  have "fib_heap n None h = Inr (v, h @ [m])"
    using fresh [of h] by (simp add: fib_heap_None)
  moreover have "fib_heap n None (h @ [m]) = Inr (v, (h @ [m]) @ [m])"
    using fresh [of "h @ [m]"] by (simp add: fib_heap_None)
  moreover have "returned (fib n None) = Inr v" "returned (fib n (Some Map.empty)) = Inr v"
    using run by (simp_all add: fib_None returned_def)
  ultimately show ?thesis using fresh [of h] by simp
qed

text \<open>
  C9. \<open>fib(n, memo)\<close> returns for every integer \<open>n\<close>, the negative ones included, and for
  every dictionary argument, without an error. Every recursive call made on the way, by
  an invocation with argument \<open>m\<close>, has \<open>m > 1\<close> and passes \<open>m - 1\<close> or \<open>m - 2\<close>, a smaller
  argument that is not negative. When \<open>n \<le> 1\<close> the call returns \<open>n\<close> at once: no recursive
  call and no access to the dictionary.
\<close>

theorem fib_terminates:
  "(\<exists>v memo' t.
      fib_traced n memo_arg = Inr (v, memo', t) \<and>
      fib n memo_arg = Inr (v, memo') \<and>
      (\<forall>m k. Call m k \<in> set t \<longrightarrow>
         1 < m \<and> m \<le> n \<and> 0 \<le> k \<and> k < m \<and> (k = m - 1 \<or> k = m - 2))) \<and>
   (n \<le> 1 \<longrightarrow>
      fib_traced n memo_arg =
        Inr (n, (case memo_arg of None \<Rightarrow> Map.empty | Some d \<Rightarrow> d), []))"
proof -
  define memo where "memo = (case memo_arg of None \<Rightarrow> Map.empty | Some d \<Rightarrow> d)"
  have t: "fib_traced n memo_arg = fib_traced n (Some memo)"
    by (cases memo_arg) (simp_all add: memo_def fib_traced_None)
  have f: "fib n memo_arg = fib n (Some memo)"
    by (cases memo_arg) (simp_all add: memo_def fib_None)
  obtain v memo' tr where run: "fib_traced n (Some memo) = Inr (v, memo', tr)"
    using fib_traced_total [of n memo] by auto
  have "fib n (Some memo) = Inr (v, memo')" by (rule fib_erase [OF run])
  moreover have "\<forall>m k. Call m k \<in> set tr \<longrightarrow>
         1 < m \<and> m \<le> n \<and> 0 \<le> k \<and> k < m \<and> (k = m - 1 \<or> k = m - 2)"
    using fib_traced_calls_decrease [OF run] by blast
  moreover have "n \<le> 1 \<longrightarrow> fib_traced n (Some memo) = Inr (n, memo, [])"
    by (simp add: fib_traced_base)
  ultimately show ?thesis unfolding t f memo_def [symmetric] using run by blast
qed

theorem fib_terminates_witness:
  "(\<exists>v memo' t.
      fib_traced 3 None = Inr (v, memo', t) \<and> fib 3 None = Inr (v, memo') \<and>
      Call 3 2 \<in> set t \<and> Call 2 0 \<in> set t) \<and>
   (- 7::int) \<le> 1 \<and> fib_traced (- 7) None = Inr (- 7, Map.empty, [])"
proof -
  have run: "fib_traced 3 None =
      Inr (2, [2 \<mapsto> 1, 3 \<mapsto> 2],
           [Contains 3 False, Call 3 2, Contains 2 False, Call 2 1, Call 2 0,
            Setitem 2 1, Getitem 2 1, Call 3 1, Setitem 3 2, Getitem 3 2])"
    by (simp add: fib_traced.simps [of 3] fib_traced.simps [of 2] fib_traced.simps [of 1]
        fib_traced.simps [of 0] dict_contains_def dict_getitem_def dict_setitem_def)
  have "\<exists>v memo' t.
      fib_traced 3 None = Inr (v, memo', t) \<and> fib 3 None = Inr (v, memo') \<and>
      Call 3 2 \<in> set t \<and> Call 2 0 \<in> set t"
    using fib_terminates [of 3 None] unfolding run by auto
  moreover have "fib_traced (- 7) None = Inr (- 7, Map.empty, [])"
    using fib_terminates [of "- 7" None] by simp
  ultimately show ?thesis by simp
qed

text \<open>
  C10. For every integer \<open>n \<ge> 2\<close>, after \<open>fib(n, memo)\<close> on a dictionary that started
  empty, the keys of the dictionary are exactly 2, 3, ..., \<open>n\<close>: the keys 0 and 1 are not
  stored, and each key \<open>k\<close> from 2 to \<open>n\<close> holds \<open>F(k)\<close>.
\<close>

theorem cache_keys_are_2_to_n:
  "2 \<le> n \<Longrightarrow>
   \<exists>v memo'.
     fib n (Some Map.empty) = Inr (v, memo') \<and>
     dom memo' = {2..n} \<and> memo' 0 = None \<and> memo' 1 = None \<and>
     (\<forall>k \<in> {2..n}. memo' k = Some (fibonacci (nat k)))"
proof -
  assume "2 \<le> n"
  then have "fib n (Some Map.empty) = Inr (fibonacci (nat n), fib_table n)"
    by (simp add: fib_empty)
  moreover have "dom (fib_table n) = {2..n}" by (rule dom_fib_table)
  moreover have "fib_table n 0 = None" "fib_table n 1 = None"
    by (simp_all add: fib_table_def)
  moreover have "\<forall>k \<in> {2..n}. fib_table n k = Some (fibonacci (nat k))"
    by (simp add: fib_table_def)
  ultimately show ?thesis by blast
qed

theorem cache_keys_are_2_to_n_witness:
  "(2::int) \<le> 3 \<and>
   (\<exists>v memo'.
     fib 3 (Some Map.empty) = Inr (v, memo') \<and>
     dom memo' = {2..3} \<and> memo' 0 = None \<and> memo' 1 = None \<and>
     memo' 2 = Some 1 \<and> memo' 3 = Some 2)"
proof -
  have le: "(2::int) \<le> 3" by simp
  have two: "fibonacci (nat 2) = 1" and three: "fibonacci (nat 3) = 2" by code_simp+
  from cache_keys_are_2_to_n [OF le] obtain v memo'
    where run: "fib 3 (Some Map.empty) = Inr (v, memo')"
      and keys: "dom memo' = {2..3}" and base: "memo' 0 = None" "memo' 1 = None"
      and vals: "\<forall>k \<in> {2..3}. memo' k = Some (fibonacci (nat k))"
    by blast
  from vals have "memo' 2 = Some (fibonacci (nat 2))" "memo' 3 = Some (fibonacci (nat 3))"
    by simp_all
  then have "memo' 2 = Some 1" "memo' 3 = Some 2" by (simp_all only: two three)
  with le run keys base show ?thesis by blast
qed

end
